theory Spec2Isabelle
  imports Main "HOL-Library.Sublist" "HOL-Library.Signed_Division"
begin

section \<open>Strings\<close>

text \<open>
  A JavaScript string is a sequence of code units. The model uses \<^typ>\<open>string\<close>, that is
  the strings all of whose code units are below 256, each \<^typ>\<open>char\<close> standing for the
  code unit of the same number. Among those, the white space that \<^verbatim>\<open>trim\<close> removes is
  TAB, LF, VT, FF, CR, SPACE and NBSP, and the line terminators that the regular expression
  atom \<^verbatim>\<open>.\<close> refuses are LF and CR.
\<close>

definition is_line_terminator :: "char \<Rightarrow> bool" where
  "is_line_terminator c = (c = CHR 0x0A \<or> c = CHR 0x0D)"

definition is_white_space :: "char \<Rightarrow> bool" where
  "is_white_space c =
     (c = CHR 0x09 \<or> c = CHR 0x0A \<or> c = CHR 0x0B \<or> c = CHR 0x0C \<or> c = CHR 0x0D \<or>
      c = CHR 0x20 \<or> c = CHR 0xA0)"

text \<open>\<^verbatim>\<open>s.trim()\<close>\<close>

definition trim :: "string \<Rightarrow> string" where
  "trim s = rev (dropWhile is_white_space (rev (dropWhile is_white_space s)))"

text \<open>\<^verbatim>\<open>s.startsWith(p)\<close>\<close>

definition startsWith :: "string \<Rightarrow> string \<Rightarrow> bool" where
  "startsWith s p = prefix p s"

text \<open>\<^verbatim>\<open>s.includes(sub)\<close>\<close>

fun includes_str :: "string \<Rightarrow> string \<Rightarrow> bool" where
  "includes_str [] sub = (sub = [])"
| "includes_str (c # cs) sub = (prefix sub (c # cs) \<or> includes_str cs sub)"

text \<open>\<^verbatim>\<open>s.substring(n)\<close> for a constant \<open>n \<ge> 0\<close>\<close>

definition substring :: "string \<Rightarrow> nat \<Rightarrow> string" where
  "substring s n = drop n s"

text \<open>\<^verbatim>\<open>s.slice(1, -1)\<close>: from index \<open>min 1 len\<close> up to index \<open>len - 1\<close>, empty when the
  bounds cross.\<close>

definition slice_1_m1 :: "string \<Rightarrow> string" where
  "slice_1_m1 s = take (length s - 1 - 1) (drop 1 s)"

text \<open>\<^verbatim>\<open>s.split(sep)\<close> for a non-empty separator string: the pieces between the
  occurrences of \<open>sep\<close>, found from the left without overlap. The first argument holds the
  piece being read.\<close>

function split_str :: "string \<Rightarrow> string \<Rightarrow> string \<Rightarrow> string list" where
  "split_str sep acc [] = [acc]"
| "split_str sep acc (c # cs) =
     (if sep \<noteq> [] \<and> prefix sep (c # cs)
      then acc # split_str sep [] (drop (length sep) (c # cs))
      else split_str sep (acc @ [c]) cs)"
  by pat_completeness auto
termination
  by (relation "measure (\<lambda>(sep, acc, s). length s)") (auto simp: neq_Nil_conv)

section \<open>The two regular expressions\<close>

text \<open>
  A backtracking matcher in continuation style, the way the ECMAScript specification
  describes it: a matcher takes the input left to read and answers with the input left
  after the whole match, or fails. \<open>lit p k\<close> reads the literal \<open>p\<close> and goes on with
  \<open>k\<close>; \<open>lazy_dot_star k\<close> is \<^verbatim>\<open>.*?\<close> followed by \<open>k\<close>: it tries \<open>k\<close> first, and only
  when \<open>k\<close> fails does it consume one more character that is not a line terminator.
\<close>

type_synonym matcher = "string \<Rightarrow> string option"

definition lit :: "string \<Rightarrow> matcher \<Rightarrow> matcher" where
  "lit p k s = (if prefix p s then k (drop (length p) s) else None)"

fun lazy_dot_star :: "matcher \<Rightarrow> matcher" where
  "lazy_dot_star k [] = k []"
| "lazy_dot_star k (c # cs) =
     (case k (c # cs) of
        Some r \<Rightarrow> Some r
      | None \<Rightarrow> if is_line_terminator c then None else lazy_dot_star k cs)"

text \<open>\<^verbatim>\<open>/\[.*?\]\(.*?\)/\<close> tried at the head of the input\<close>

definition link_re :: matcher where
  "link_re = lit ''['' (lazy_dot_star (lit '']('' (lazy_dot_star (lit '')'' Some))))"

text \<open>\<^verbatim>\<open>/@\(\[.*?\]\(.*?\)\)/\<close> tried at the head of the input\<close>

definition placeholder_re :: matcher where
  "placeholder_re =
     lit ''@(['' (lazy_dot_star (lit '']('' (lazy_dot_star (lit ''))'' Some))))"

text \<open>A matcher advances by \<open>n\<close> when every match consumes at least \<open>n\<close> characters.\<close>

definition advances :: "nat \<Rightarrow> matcher \<Rightarrow> bool" where
  "advances n k = (\<forall>s r. k s = Some r \<longrightarrow> length r + n \<le> length s)"

lemma advances_Some: "advances 0 Some"
  by (simp add: advances_def)

lemma advances_lit: "advances n k \<Longrightarrow> advances (n + length p) (lit p k)"
  unfolding advances_def lit_def
proof (intro allI impI)
  fix s r
  assume k: "\<forall>s r. k s = Some r \<longrightarrow> length r + n \<le> length s"
    and m: "(if prefix p s then k (drop (length p) s) else None) = Some r"
  from m have p: "prefix p s" and r: "k (drop (length p) s) = Some r"
    by (simp_all split: if_splits)
  from k r have "length r + n \<le> length (drop (length p) s)" by blast
  moreover from p have "length p \<le> length s" by (rule prefix_length_le)
  ultimately show "length r + (n + length p) \<le> length s" by simp
qed

lemma lazy_dot_star_length:
  "advances n k \<Longrightarrow> lazy_dot_star k s = Some r \<Longrightarrow> length r + n \<le> length s"
proof (induction s)
  case Nil
  then have "k [] = Some r" by simp
  with Nil.prems(1) show ?case unfolding advances_def by blast
next
  case (Cons c cs)
  show ?case
  proof (cases "k (c # cs)")
    case None
    with Cons.prems(2) have "lazy_dot_star k cs = Some r"
      by (simp split: if_splits)
    with Cons.IH Cons.prems(1) have "length r + n \<le> length cs" by blast
    then show ?thesis by simp
  next
    case (Some r')
    with Cons.prems(2) have "k (c # cs) = Some r" by simp
    with Cons.prems(1) show ?thesis unfolding advances_def by blast
  qed
qed

lemma advances_lazy_dot_star: "advances n k \<Longrightarrow> advances n (lazy_dot_star k)"
  unfolding advances_def [of n "lazy_dot_star k"]
  by (blast intro: lazy_dot_star_length)

lemma advances_link_re: "advances 4 link_re"
proof -
  have "advances (0 + length '')'' + length '']('' + length ''['') link_re"
    unfolding link_re_def
    by (intro advances_lit advances_lazy_dot_star advances_Some)
  then show ?thesis by (simp add: eval_nat_numeral)
qed

lemma advances_placeholder_re: "advances 7 placeholder_re"
proof -
  have "advances (0 + length ''))'' + length '']('' + length ''@(['') placeholder_re"
    unfolding placeholder_re_def
    by (intro advances_lit advances_lazy_dot_star advances_Some)
  then show ?thesis by (simp add: eval_nat_numeral)
qed

lemma link_re_shorter: "link_re s = Some r \<Longrightarrow> length r < length s"
  using advances_link_re unfolding advances_def by fastforce

lemma placeholder_re_shorter: "placeholder_re s = Some r \<Longrightarrow> length r < length s"
  using advances_placeholder_re unfolding advances_def by fastforce

text \<open>
  \<^verbatim>\<open>content.split(/(\[.*?\]\(.*?\))/)\<close>: the matcher is tried at each position from the
  left; where it matches, the piece read so far is emitted, then the matched text (the
  pattern's one capture group is the whole match), and reading goes on after the match.
  The piece left at the end of the input is emitted last. A match is never empty, so the
  empty-match rule of \<^verbatim>\<open>split\<close> never applies, and the empty string gives one empty
  piece.
\<close>

function split_link :: "string \<Rightarrow> string \<Rightarrow> string list" where
  "split_link acc [] = [acc]"
| "split_link acc (c # cs) =
     (case link_re (c # cs) of
        Some rest \<Rightarrow>
          acc # take (length (c # cs) - length rest) (c # cs) # split_link [] rest
      | None \<Rightarrow> split_link (acc @ [c]) cs)"
  by pat_completeness auto
termination
  by (relation "measure (\<lambda>(acc, s). length s)") (auto dest: link_re_shorter)

text \<open>\<^verbatim>\<open>content.replace(/@\(\[.*?\]\(.*?\)\)/g, "")\<close>: every match, found from the left
  without overlap, is removed.\<close>

function strip_placeholder :: "string \<Rightarrow> string" where
  "strip_placeholder [] = []"
| "strip_placeholder (c # cs) =
     (case placeholder_re (c # cs) of
        Some rest \<Rightarrow> strip_placeholder rest
      | None \<Rightarrow> c # strip_placeholder cs)"
  by pat_completeness auto
termination
  by (relation "measure length") (auto dest: placeholder_re_shorter)

section \<open>Rich text\<close>

text \<open>
  A rich text item \<^verbatim>\<open>{ type: "text", text: { content, link?: { url } } }\<close>. The url of a
  link is \<^verbatim>\<open>undefined\<close> (\<open>None\<close>) when the destructuring in \<^verbatim>\<open>parseRichText\<close>
  finds no second piece.
\<close>

datatype rich_text = PlainText string | Link string "string option"

text \<open>The body of the \<^verbatim>\<open>map\<close> callback of \<^verbatim>\<open>parseRichText\<close>.\<close>

definition part_to_span :: "string \<Rightarrow> rich_text" where
  "part_to_span part =
     (if startsWith part ''['' \<and> includes_str part ''](''
      then (case split_str '']('' [] (slice_1_m1 part) of
              text # url # _ \<Rightarrow> Link text (Some url)
            | [text] \<Rightarrow> Link text None
            | [] \<Rightarrow> Link [] None)
      else PlainText part)"

definition parseRichText :: "string \<Rightarrow> rich_text list" where
  "parseRichText content = map part_to_span (split_link [] content)"

section \<open>Blocks\<close>

datatype heading_type = heading_1 | heading_2 | heading_3

datatype block =
    Heading heading_type "rich_text list"
  | Paragraph "rich_text list"
  | BulletedListItem "rich_text list"

definition createHeadingBlock :: "string \<Rightarrow> heading_type \<Rightarrow> block" where
  "createHeadingBlock content type =
     (let filteredContent = strip_placeholder content
      in Heading type [PlainText (trim filteredContent)])"

text \<open>\<^verbatim>\<open>createParagraphBlock\<close> returns \<^verbatim>\<open>null\<close> (\<open>None\<close>) or a block.\<close>

definition createParagraphBlock :: "string \<Rightarrow> block option" where
  "createParagraphBlock content =
     (let filteredContent = (if includes_str content ''AI Summarized'' then [] else content)
      in if filteredContent = [] then None
         else Some (Paragraph (parseRichText filteredContent)))"

definition createBulletedListItemBlock :: "string \<Rightarrow> block" where
  "createBulletedListItemBlock content = BulletedListItem (parseRichText content)"

section \<open>The conversion of a digest's content\<close>

text \<open>The variables of the loop of \<^verbatim>\<open>convertContentToBlocks\<close>.\<close>

record conv_state =
  blocks :: "block option list"
  currentParagraph :: string
  skipIntroduction :: bool

text \<open>\<^verbatim>\<open>blocks.push(b)\<close>\<close>

definition push :: "block option \<Rightarrow> conv_state \<Rightarrow> conv_state" where
  "push b st = st\<lparr>blocks := blocks st @ [b]\<rparr>"

text \<open>
  The statement that opens five branches of the loop,
  \<^verbatim>\<open>if (currentParagraph) { blocks.push(this.createParagraphBlock(currentParagraph)); currentParagraph = ""; }\<close>
  (a string is truthy when it is not empty).
\<close>

definition flush :: "conv_state \<Rightarrow> conv_state" where
  "flush st =
     (if currentParagraph st \<noteq> []
      then (push (createParagraphBlock (currentParagraph st)) st)\<lparr>currentParagraph := []\<rparr>
      else st)"

text \<open>One turn of the loop, on one line.\<close>

definition step :: "conv_state \<Rightarrow> string \<Rightarrow> conv_state" where
  "step st line =
     (if skipIntroduction st then
        (if trim line = ''---'' then st\<lparr>skipIntroduction := False\<rparr> else st)
      else if startsWith line ''# '' then
        push (Some (createHeadingBlock (substring line 2) heading_1)) (flush st)
      else if startsWith line ''## '' then
        push (Some (createHeadingBlock (substring line 3) heading_2)) (flush st)
      else if startsWith line ''### '' then
        push (Some (createHeadingBlock (substring line 4) heading_3)) (flush st)
      else if startsWith line ''- '' then
        push (Some (createBulletedListItemBlock (substring line 2))) (flush st)
      else if trim line = [] then flush st
      else st\<lparr>currentParagraph := currentParagraph st @ line\<rparr>)"

definition initial_state :: conv_state where
  "initial_state = \<lparr>blocks = [], currentParagraph = [], skipIntroduction = True\<rparr>"

text \<open>What follows the loop: the last paragraph is pushed, and the \<^verbatim>\<open>null\<close>s are
  filtered out.\<close>

definition finish :: "conv_state \<Rightarrow> block list" where
  "finish st =
     (let bs = (if currentParagraph st \<noteq> []
                then blocks st @ [createParagraphBlock (currentParagraph st)]
                else blocks st)
      in List.map_filter (\<lambda>b. b) bs)"

definition convertContentToBlocks :: "string \<Rightarrow> block list" where
  "convertContentToBlocks content =
     (let lines = split_str ''\<newline>'' [] content
      in finish (foldl step initial_state lines))"

section \<open>The title of the day page\<close>

text \<open>The decimal rendering of an integer number, as string concatenation with a number
  gives it.\<close>

function nat_to_string :: "nat \<Rightarrow> string" where
  "nat_to_string n =
     (if n < 10 then [''0123456789'' ! n]
      else nat_to_string (n div 10) @ [''0123456789'' ! (n mod 10)])"
  by pat_completeness auto
termination
  by (relation "measure (\<lambda>n. n)") auto

definition number_to_string :: "int \<Rightarrow> string" where
  "number_to_string n =
     (if n < 0 then ''-'' @ nat_to_string (nat (- n)) else nat_to_string (nat n))"

text \<open>\<^verbatim>\<open>s[i]\<close> on an array, for an integer \<open>i\<close>: \<^verbatim>\<open>undefined\<close> (\<open>None\<close>) out of
  range.\<close>

definition array_get :: "'a list \<Rightarrow> int \<Rightarrow> 'a option" where
  "array_get xs i = (if 0 \<le> i \<and> i < int (length xs) then Some (xs ! nat i) else None)"

text \<open>\<^verbatim>\<open>a || b\<close> on values that are a string or \<^verbatim>\<open>undefined\<close>: \<open>a\<close> when it is
  truthy (a non-empty string), else \<open>b\<close>.\<close>

definition js_or :: "string option \<Rightarrow> string option \<Rightarrow> string option" where
  "js_or a b = (case a of Some x \<Rightarrow> if x \<noteq> [] then Some x else b | None \<Rightarrow> b)"

text \<open>The operand \<^verbatim>\<open>(s[(v - 20) % 10] || s[v] || s[0])\<close> of \<^verbatim>\<open>getOrdinalSuffix\<close>;
  \<^verbatim>\<open>%\<close> is the remainder that takes the sign of the dividend.\<close>

definition ordinal_suffix :: "int \<Rightarrow> string option" where
  "ordinal_suffix n =
     (let s = [''th'', ''st'', ''nd'', ''rd''];
          v = n smod 100
      in js_or (js_or (array_get s ((v - 20) smod 10)) (array_get s v)) (array_get s 0))"

definition getOrdinalSuffix :: "int \<Rightarrow> string" where
  "getOrdinalSuffix n =
     number_to_string n @ (case ordinal_suffix n of Some x \<Rightarrow> x | None \<Rightarrow> ''undefined'')"

section \<open>The remote document store\<close>

text \<open>
  A thrown value, with the two fields that its rendering in a template literal reads.
  \<^verbatim>\<open>new Error(msg)\<close> is \<open>Exn ''Error'' msg\<close>.
\<close>

datatype exn = Exn (exn_name: string) (exn_message: string)

definition exn_to_string :: "exn \<Rightarrow> string" where
  "exn_to_string e =
     (if exn_name e = [] then exn_message e
      else if exn_message e = [] then exn_name e
      else exn_name e @ '': '' @ exn_message e)"

definition new_Error :: "string \<Rightarrow> exn" where
  "new_Error msg = Exn ''Error'' msg"

text \<open>
  An entry of the listing of a page's children: its id, its \<^verbatim>\<open>type\<close> (a partial
  response has none) and the title under its \<^verbatim>\<open>child_page\<close> key, when it has the key.
\<close>

record block_response =
  block_id :: string
  block_type :: "string option"
  child_page :: "string option"

record page_response =
  page_id :: string

record create_request =
  parent_page_id :: string
  title_content :: string
  children :: "block list option"

text \<open>
  The client: what \<^verbatim>\<open>notion.blocks.children.list\<close> and \<^verbatim>\<open>notion.pages.create\<close>
  answer, \<open>Inl\<close> for a rejected promise.
\<close>

record notion_client =
  blocks_children_list :: "string \<Rightarrow> exn + block_response list"
  pages_create :: "create_request \<Rightarrow> exn + page_response"

text \<open>What the clock gives: the long month name under the default locale and under
  \<^verbatim>\<open>en-US\<close>, and the day of the month.\<close>

record clock =
  month_default :: string
  month_en_US :: string
  day_of_month :: int

text \<open>
  The trace of a run: the requests sent to the store and the conversions started, in
  order. It is the state that the operations below pass along.
\<close>

datatype event =
    ListChildren string
  | CreatePage create_request
  | ConvertContent string

record digest =
  content :: string

text \<open>What \<^verbatim>\<open>handlePageContext\<close> returns: a listed block, or the response of the
  creation. Both carry an \<^verbatim>\<open>id\<close>.\<close>

datatype month_page = ExistingPage block_response | CreatedPage page_response


text \<open>The \<^verbatim>\<open>for\<close> loop of \<^verbatim>\<open>handlePageContext\<close>, which returns at the first page whose
  title includes the month.\<close>

fun find_month_page :: "string \<Rightarrow> block_response list \<Rightarrow> block_response option" where
  "find_month_page currentMonth [] = None"
| "find_month_page currentMonth (page # pages) =
     (case child_page page of
        Some pageTitle \<Rightarrow>
          if includes_str pageTitle currentMonth then Some page
          else find_month_page currentMonth pages
      | None \<Rightarrow> find_month_page currentMonth pages)"


definition handlePageContext ::
  "notion_client \<Rightarrow> clock \<Rightarrow> string \<Rightarrow> event list \<Rightarrow> (exn + month_page) \<times> event list" where
  "handlePageContext notion clk parentId tr =
     (let tr1 = tr @ [ListChildren parentId]
      in case blocks_children_list notion parentId of
           Inl e \<Rightarrow> (Inl e, tr1)
         | Inr results \<Rightarrow>
             let nestedPages = filter (\<lambda>b. block_type b = Some ''child_page'') results;
                 currentMonth = month_default clk
             in case find_month_page currentMonth nestedPages of
                  Some page \<Rightarrow> (Inr (ExistingPage page), tr1)
                | None \<Rightarrow>
                    let req = \<lparr>parent_page_id = parentId, title_content = currentMonth,
                               children = None\<rparr>;
                        tr2 = tr1 @ [CreatePage req]
                    in case pages_create notion req of
                         Inl e \<Rightarrow> (Inl e, tr2)
                       | Inr newMonthPage \<Rightarrow> (Inr (CreatedPage newMonthPage), tr2))"

definition createDayPage ::
  "notion_client \<Rightarrow> clock \<Rightarrow> string \<Rightarrow> 'a digest_scheme \<Rightarrow> event list
     \<Rightarrow> (exn + page_response) \<times> event list" where
  "createDayPage notion clk monthPageId dg tr =
     (let day = day_of_month clk;
          month = month_en_US clk;
          title = month @ '' '' @ getOrdinalSuffix day;
          tr1 = tr @ [ConvertContent (content dg)];
          blocks = convertContentToBlocks (content dg);
          req = \<lparr>parent_page_id = monthPageId, title_content = title,
                 children = Some blocks\<rparr>;
          tr2 = tr1 @ [CreatePage req]
      in case pages_create notion req of
           Inl error \<Rightarrow>
             (Inl (new_Error (''Failed to create day page in Notion: '' @ exn_to_string error)),
              tr2)
         | Inr response \<Rightarrow> (Inr response, tr2))"


section \<open>Notions used to state the properties\<close>

subsection \<open>The rules in the specification's words\<close>

text \<open>The ordinal suffix rule in the specification's words: \<open>th\<close> when the day modulo 100
  is 11, 12 or 13; otherwise by the day modulo 10, 1 \<open>st\<close>, 2 \<open>nd\<close>, 3 \<open>rd\<close>; \<open>th\<close> in all
  other cases.\<close>

definition spec_suffix :: "int \<Rightarrow> string" where
  "spec_suffix d =
     (if d mod 100 = 11 \<or> d mod 100 = 12 \<or> d mod 100 = 13 then ''th''
      else if d mod 10 = 1 then ''st''
      else if d mod 10 = 2 then ''nd''
      else if d mod 10 = 3 then ''rd''
      else ''th'')"

text \<open>The test that \<^const>\<open>part_to_span\<close> applies to a token.\<close>

definition looks_like_link :: "string \<Rightarrow> bool" where
  "looks_like_link tok = (startsWith tok ''['' \<and> includes_str tok '']('')"

text \<open>Slicing off the first and the last character and splitting at \<^verbatim>\<open>](\<close>: the text is
  the first piece, the url the second piece when there is one.\<close>

definition link_of_token :: "string \<Rightarrow> rich_text" where
  "link_of_token tok =
     (let pieces = split_str '']('' [] (slice_1_m1 tok)
      in Link (pieces ! 0) (if 1 < length pieces then Some (pieces ! 1) else None))"

text \<open>The decoding of a token in the specification's words: a token that exactly wraps the
  bracket-paren link form becomes a link span, by slicing off the outer brackets and
  splitting at \<^verbatim>\<open>](\<close>; every other token becomes a plain span with its literal content.\<close>

definition spec_span :: "string \<Rightarrow> rich_text" where
  "spec_span tok = (if link_re tok = Some [] then link_of_token tok else PlainText tok)"

text \<open>Reassembling a line from its spans, with the bracket decoration put back around each
  link.\<close>

fun surface :: "rich_text \<Rightarrow> string" where
  "surface (PlainText c) = c"
| "surface (Link c url) = ''['' @ c @ '']('' @ (case url of Some u \<Rightarrow> u | None \<Rightarrow> []) @ '')''"

definition reassemble :: "rich_text list \<Rightarrow> string" where
  "reassemble spans = concat (map surface spans)"

text \<open>The paragraph that a flush of the accumulated text \<open>t\<close> adds to the output.\<close>

definition emitted_paragraph :: "string \<Rightarrow> block list" where
  "emitted_paragraph t =
     (if t \<noteq> [] \<and> \<not> includes_str t ''AI Summarized'' then [Paragraph (parseRichText t)] else [])"

subsection \<open>The store and the trace\<close>

text \<open>A listed child is a month page when it is of kind page and its title includes the
  month.\<close>

definition is_month_page :: "string \<Rightarrow> block_response \<Rightarrow> bool" where
  "is_month_page m b =
     (block_type b = Some ''child_page'' \<and>
      (case child_page b of Some t \<Rightarrow> includes_str t m | None \<Rightarrow> False))"


fun is_conversion :: "event \<Rightarrow> bool" where
  "is_conversion (ConvertContent _) = True"
| "is_conversion _ = False"

text \<open>The two creation requests.\<close>

definition month_request :: "clock \<Rightarrow> string \<Rightarrow> create_request" where
  "month_request clk parentId =
     \<lparr>parent_page_id = parentId, title_content = month_default clk, children = None\<rparr>"

definition day_request :: "clock \<Rightarrow> string \<Rightarrow> string \<Rightarrow> create_request" where
  "day_request clk monthPageId txt =
     \<lparr>parent_page_id = monthPageId,
      title_content = month_en_US clk @ '' '' @ getOrdinalSuffix (day_of_month clk),
      children = Some (convertContentToBlocks txt)\<rparr>"

subsection \<open>Sample inputs\<close>

definition demo_client :: notion_client where
  "demo_client =
     \<lparr>blocks_children_list = (\<lambda>i. Inr
        [\<lparr>block_id = ''b0'', block_type = None, child_page = None\<rparr>,
         \<lparr>block_id = ''b1'', block_type = Some ''child_page'', child_page = Some ''February''\<rparr>,
         \<lparr>block_id = ''b2'', block_type = Some ''child_page'', child_page = Some ''March Notes''\<rparr>,
         \<lparr>block_id = ''b3'', block_type = Some ''child_page'', child_page = Some ''March''\<rparr>]),
      pages_create = (\<lambda>req. Inr \<lparr>page_id = ''new''\<rparr>)\<rparr>"


definition demo_clock :: "string \<Rightarrow> clock" where
  "demo_clock m = \<lparr>month_default = m, month_en_US = m, day_of_month = 3\<rparr>"

subsection \<open>Auxiliary notions of the proofs\<close>

text \<open>The lookup chain of \<^const>\<open>ordinal_suffix\<close> at a given \<open>v = n % 100\<close>.\<close>

definition suffix_at :: "int \<Rightarrow> string option" where
  "suffix_at v =
     (let s = [''th'', ''st'', ''nd'', ''rd'']
      in js_or (js_or (array_get s ((v - 20) smod 10)) (array_get s v)) (array_get s 0))"

text \<open>\<^verbatim>\<open>pieces.join(sep)\<close>, the inverse of splitting.\<close>

fun join :: "string \<Rightarrow> string list \<Rightarrow> string" where
  "join sep [] = []"
| "join sep [x] = x"
| "join sep (x # y # ys) = x @ sep @ join sep (y # ys)"

text \<open>
  Two properties that the matchers built from \<^const>\<open>lit\<close> and \<^const>\<open>lazy_dot_star\<close>
  have: a match does not look at the input after its end, and a successful match stays
  possible when input is appended.
\<close>

definition truncates :: "matcher \<Rightarrow> bool" where
  "truncates k = (\<forall>s r. k s = Some r \<longrightarrow> (\<exists>m. s = m @ r \<and> k m = Some []))"

definition extends :: "matcher \<Rightarrow> bool" where
  "extends k = (\<forall>q e. k q \<noteq> None \<longrightarrow> k (q @ e) \<noteq> None)"

text \<open>A pushed entry is in order when, if it is a paragraph, it is the parse of a text that
  is not empty and does not include the marker.\<close>

definition paragraph_ok :: "block option \<Rightarrow> bool" where
  "paragraph_ok b =
     (\<forall>spans. b = Some (Paragraph spans) \<longrightarrow>
        (\<exists>t. t \<noteq> [] \<and> \<not> includes_str t ''AI Summarized'' \<and> spans = parseRichText t))"


section \<open>The ordinal suffix\<close>

lemma smod_nonneg: "0 \<le> (k::int) \<Longrightarrow> 0 < l \<Longrightarrow> k smod l = k mod l"
  by (cases "k = 0") (simp_all add: signed_modulo_int_def)

lemma smod_neg: "(k::int) < 0 \<Longrightarrow> 0 < l \<Longrightarrow> k smod l = - ((- k) mod l)"
  by (simp add: signed_modulo_int_def)

text \<open>Below 20 the first index is zero or negative, and the second lookup decides.\<close>

lemma suffix_low:
  assumes "0 \<le> v" "v < 20"
  shows "suffix_at v =
    Some (if v = 1 then ''st'' else if v = 2 then ''nd'' else if v = 3 then ''rd'' else ''th'')"
proof -
  have i: "(v - 20) smod 10 = - ((20 - v) mod 10)"
    using assms by (simp add: smod_neg)
  have le: "(v - 20) smod 10 \<le> 0" unfolding i by simp
  show ?thesis
  proof (cases "(v - 20) smod 10 = 0")
    case True
    then have "v \<noteq> 1 \<and> v \<noteq> 2 \<and> v \<noteq> 3" unfolding i by presburger
    with True show ?thesis by (simp add: suffix_at_def array_get_def js_or_def)
  next
    case False
    with le have neg: "(v - 20) smod 10 < 0" by simp
    have "v = 1 \<or> v = 2 \<or> v = 3 \<or> v = 0 \<or> 4 \<le> v" using assms by arith
    then show ?thesis using neg
      by (elim disjE) (simp_all add: suffix_at_def array_get_def js_or_def)
  qed
qed

text \<open>From 20 on the first index is the last digit, and the second lookup is out of
  range.\<close>

lemma suffix_high:
  assumes "20 \<le> v"
  shows "suffix_at v =
    Some (if v mod 10 = 1 then ''st'' else if v mod 10 = 2 then ''nd''
          else if v mod 10 = 3 then ''rd'' else ''th'')"
proof -
  have "(v - 20) mod 10 = v mod 10" by presburger
  with assms have i: "(v - 20) smod 10 = v mod 10" by (simp add: smod_nonneg)
  have "0 \<le> v mod 10" by simp
  then have "v mod 10 = 0 \<or> v mod 10 = 1 \<or> v mod 10 = 2 \<or> v mod 10 = 3 \<or> 4 \<le> v mod 10"
    by arith
  then show ?thesis using assms unfolding suffix_at_def Let_def i
    by (elim disjE) (simp_all add: array_get_def js_or_def)
qed

lemma ordinal_suffix_at: "0 \<le> d \<Longrightarrow> ordinal_suffix d = suffix_at (d mod 100)"
  by (simp add: ordinal_suffix_def suffix_at_def smod_nonneg Let_def)

lemma ordinal_suffix_spec:
  assumes "1 \<le> d"
  shows "ordinal_suffix d = Some (spec_suffix d)"
proof -
  define v where "v = d mod 100"
  have v: "0 \<le> v" "v < 100" and m: "d mod 10 = v mod 10"
    unfolding v_def by (simp_all add: mod_mod_cancel)
  have os: "ordinal_suffix d = suffix_at v"
    using assms by (simp add: ordinal_suffix_at v_def)
  show ?thesis
  proof (cases "v < 20")
    case True
    have "(v < 10 \<and> v mod 10 = v) \<or> (10 \<le> v \<and> v mod 10 = v - 10)"
      using v True by presburger
    then show ?thesis using True v unfolding os spec_suffix_def m v_def [symmetric]
      by (elim disjE) (simp_all add: suffix_low)
  next
    case False
    then show ?thesis unfolding os spec_suffix_def m v_def [symmetric]
      by (simp add: suffix_high)
  qed
qed

lemma getOrdinalSuffix_examples:
  "getOrdinalSuffix 1 = ''1st''" "getOrdinalSuffix 2 = ''2nd''"
  "getOrdinalSuffix 3 = ''3rd''" "getOrdinalSuffix 4 = ''4th''"
  "getOrdinalSuffix 11 = ''11th''" "getOrdinalSuffix 21 = ''21st''"
  by code_simp+

text \<open>
  Claim C6. For every day number \<open>d \<ge> 1\<close>, the title's ordinal is the decimal day followed
  by the suffix of the rule (\<open>th\<close> when \<open>d mod 100\<close> is 11, 12 or 13; otherwise \<open>st\<close>,
  \<open>nd\<close>, \<open>rd\<close> for \<open>d mod 10\<close> equal to 1, 2, 3; \<open>th\<close> in all other cases); in particular
  the days 1, 2, 3, 4, 11 and 21 give 1st, 2nd, 3rd, 4th, 11th and 21st.
\<close>

theorem getOrdinalSuffix_rule:
  "(1 \<le> d \<longrightarrow> getOrdinalSuffix d = number_to_string d @ spec_suffix d) \<and>
   getOrdinalSuffix 1 = ''1st'' \<and> getOrdinalSuffix 2 = ''2nd'' \<and>
   getOrdinalSuffix 3 = ''3rd'' \<and> getOrdinalSuffix 4 = ''4th'' \<and>
   getOrdinalSuffix 11 = ''11th'' \<and> getOrdinalSuffix 21 = ''21st''"
  by (simp add: getOrdinalSuffix_examples) (simp add: getOrdinalSuffix_def ordinal_suffix_spec)

theorem getOrdinalSuffix_rule_witness:
  "(1::int) \<le> 22 \<and> getOrdinalSuffix 22 = ''22nd''"
  using getOrdinalSuffix_rule [of 22] by (simp add: spec_suffix_def number_to_string_def)

section \<open>Splitting and joining\<close>

lemma split_str_not_Nil: "split_str sep acc s \<noteq> []"
  by (induction sep acc s rule: split_str.induct) simp_all

lemma join_Cons: "ys \<noteq> [] \<Longrightarrow> join sep (x # ys) = x @ sep @ join sep ys"
  by (cases ys) simp_all

lemma join_split_str: "join sep (split_str sep acc s) = acc @ s"
proof (induction sep acc s rule: split_str.induct)
  case (1 sep acc)
  show ?case by simp
next
  case (2 sep acc c cs)
  show ?case
  proof (cases "sep \<noteq> [] \<and> prefix sep (c # cs)")
    case True
    then have "sep @ drop (length sep) (c # cs) = c # cs"
      by (metis append_eq_conv_conj prefixE)
    with True 2(1) show ?thesis
      by (simp add: join_Cons split_str_not_Nil)
  next
    case False
    with 2(2) show ?thesis by auto
  qed
qed

lemma prefix_includes_str: "prefix p s \<Longrightarrow> includes_str s p"
  by (cases s) simp_all

lemma includes_str_append: "includes_str (a @ p @ b) p"
  by (induction a) (simp_all add: prefix_includes_str)

lemma includes_str_split_str:
  "sep \<noteq> [] \<Longrightarrow> includes_str s sep \<Longrightarrow> 2 \<le> length (split_str sep acc s)"
proof (induction sep acc s rule: split_str.induct)
  case (1 sep acc)
  then show ?case by simp
next
  case (2 sep acc c cs)
  show ?case
  proof (cases "prefix sep (c # cs)")
    case True
    have "split_str sep [] (drop (length sep) (c # cs)) \<noteq> []" by (rule split_str_not_Nil)
    then have "1 \<le> length (split_str sep [] (drop (length sep) (c # cs)))"
      by (simp add: Suc_le_eq)
    with True 2(3) show ?thesis by simp
  next
    case False
    with 2(4) have "includes_str cs sep" by simp
    with 2(2,3) False have "2 \<le> length (split_str sep (acc @ [c]) cs)" by simp
    with False show ?thesis by simp
  qed
qed

section \<open>The link pattern\<close>

lemma truncates_Some: "truncates Some"
  by (simp add: truncates_def)

lemma extends_Some: "extends Some"
  by (simp add: extends_def)

lemma lit_Some: "lit p k s = Some r \<longleftrightarrow> (\<exists>s'. s = p @ s' \<and> k s' = Some r)"
  by (auto simp: lit_def prefix_def)

lemma lit_append: "lit p k (p @ s) = k s"
  by (simp add: lit_def)

lemma truncates_lit:
  assumes "truncates k"
  shows "truncates (lit p k)"
  unfolding truncates_def
proof (intro allI impI)
  fix s r
  assume "lit p k s = Some r"
  then obtain s' where s: "s = p @ s'" and k: "k s' = Some r"
    by (auto simp: lit_Some)
  from assms k obtain m where m: "s' = m @ r" "k m = Some []"
    unfolding truncates_def by blast
  have "s = (p @ m) @ r" using s m by simp
  moreover have "lit p k (p @ m) = Some []" using m by (simp add: lit_append)
  ultimately show "\<exists>m. s = m @ r \<and> lit p k m = Some []" by blast
qed

lemma extends_lit:
  assumes "extends k"
  shows "extends (lit p k)"
  unfolding extends_def
proof (intro allI impI)
  fix q e
  assume "lit p k q \<noteq> None"
  then obtain r where "lit p k q = Some r" by auto
  then obtain q' where q: "q = p @ q'" and k: "k q' = Some r"
    by (auto simp: lit_Some)
  from assms k have "k (q' @ e) \<noteq> None" unfolding extends_def by simp
  then show "lit p k (q @ e) \<noteq> None" using q by (simp add: lit_append)
qed

lemma lazy_dot_star_extends:
  assumes "extends k"
  shows "lazy_dot_star k q \<noteq> None \<Longrightarrow> lazy_dot_star k (q @ e) \<noteq> None"
proof (induction q)
  case Nil
  then have "k [] \<noteq> None" by simp
  with assms have k: "k ([] @ e) \<noteq> None" unfolding extends_def by blast
  show ?case
  proof (cases e)
    case Nil
    with k show ?thesis by simp
  next
    case (Cons c cs)
    with k show ?thesis by (auto split: option.splits)
  qed
next
  case (Cons c cs)
  show ?case
  proof (cases "k (c # cs)")
    case None
    with Cons.prems have nl: "\<not> is_line_terminator c" and "lazy_dot_star k cs \<noteq> None"
      by (simp_all split: if_splits)
    then have "lazy_dot_star k (cs @ e) \<noteq> None" using Cons.IH by simp
    with nl show ?thesis by (simp split: option.splits)
  next
    case (Some r)
    then have "k (c # cs) \<noteq> None" by simp
    with assms have "k ((c # cs) @ e) \<noteq> None" unfolding extends_def by blast
    then show ?thesis by (auto split: option.splits)
  qed
qed

lemma extends_lazy_dot_star:
  assumes "extends k"
  shows "extends (lazy_dot_star k)"
  unfolding extends_def
proof (intro allI impI)
  fix q e
  assume "lazy_dot_star k q \<noteq> None"
  with assms show "lazy_dot_star k (q @ e) \<noteq> None" by (rule lazy_dot_star_extends)
qed

lemma lazy_dot_star_truncates:
  assumes t: "truncates k" and e: "extends k"
  shows "lazy_dot_star k s = Some r \<Longrightarrow> \<exists>m. s = m @ r \<and> lazy_dot_star k m = Some []"
proof (induction s)
  case Nil
  then have "k [] = Some r" by simp
  with t obtain m where "[] = m @ r" "k m = Some []" unfolding truncates_def by blast
  then show ?case by simp
next
  case (Cons c cs)
  show ?case
  proof (cases "k (c # cs)")
    case (Some r')
    with Cons.prems have "k (c # cs) = Some r" by simp
    with t obtain m where m: "c # cs = m @ r" "k m = Some []"
      unfolding truncates_def by blast
    from m(2) have "lazy_dot_star k m = Some []" by (cases m) simp_all
    with m(1) show ?thesis by blast
  next
    case None
    with Cons.prems have nl: "\<not> is_line_terminator c" and "lazy_dot_star k cs = Some r"
      by (simp_all split: if_splits)
    with Cons.IH obtain m where m: "cs = m @ r" "lazy_dot_star k m = Some []" by blast
    have "k (c # m) = None"
    proof (rule ccontr)
      assume "k (c # m) \<noteq> None"
      with e have "k ((c # m) @ r) \<noteq> None" unfolding extends_def by blast
      with None m(1) show False by simp
    qed
    with nl m(2) have "lazy_dot_star k (c # m) = Some []" by simp
    moreover have "c # cs = (c # m) @ r" using m(1) by simp
    ultimately show ?thesis by blast
  qed
qed

lemma truncates_lazy_dot_star:
  "truncates k \<Longrightarrow> extends k \<Longrightarrow> truncates (lazy_dot_star k)"
  unfolding truncates_def [of "lazy_dot_star k"]
  by (blast intro: lazy_dot_star_truncates)

lemma truncates_link_re: "truncates link_re"
  unfolding link_re_def
  by (intro truncates_lit truncates_lazy_dot_star extends_lit extends_lazy_dot_star
      truncates_Some extends_Some)

text \<open>The text that a match consumed is itself matched exactly.\<close>

lemma link_re_exact:
  assumes "link_re s = Some r"
  shows "s = take (length s - length r) s @ r \<and> link_re (take (length s - length r) s) = Some []"
proof -
  from assms truncates_link_re obtain m where m: "s = m @ r" "link_re m = Some []"
    unfolding truncates_def by blast
  then have "take (length s - length r) s = m" by simp
  with m show ?thesis by simp
qed

text \<open>The shape of a text that the pattern matches exactly.\<close>

lemma lazy_dot_star_lit:
  "lazy_dot_star (lit p k) s = Some r \<Longrightarrow> \<exists>a b. s = a @ p @ b \<and> k b = Some r"
proof (induction s)
  case Nil
  then have "lit p k [] = Some r" by simp
  then obtain s' where "[] = p @ s'" "k s' = Some r" by (auto simp: lit_Some)
  then have "[] = [] @ p @ s' \<and> k s' = Some r" by simp
  then show ?case by blast
next
  case (Cons c cs)
  show ?case
  proof (cases "lit p k (c # cs)")
    case None
    with Cons.prems have "lazy_dot_star (lit p k) cs = Some r"
      by (simp split: if_splits)
    with Cons.IH obtain a b where "cs = a @ p @ b" "k b = Some r" by blast
    then have "c # cs = (c # a) @ p @ b \<and> k b = Some r" by simp
    then show ?thesis by blast
  next
    case (Some r')
    with Cons.prems have "lit p k (c # cs) = Some r" by simp
    then obtain s' where "c # cs = p @ s'" "k s' = Some r" by (auto simp: lit_Some)
    then have "c # cs = [] @ p @ s' \<and> k s' = Some r" by simp
    then show ?thesis by blast
  qed
qed

lemma link_re_shape:
  assumes "link_re tok = Some []"
  shows "\<exists>a b. tok = ''['' @ a @ '']('' @ b @ '')''"
proof -
  from assms obtain s1 where s1: "tok = ''['' @ s1"
    and m1: "lazy_dot_star (lit '']('' (lazy_dot_star (lit '')'' Some))) s1 = Some []"
    unfolding link_re_def by (auto simp: lit_Some)
  from lazy_dot_star_lit [OF m1] obtain a s2 where s2: "s1 = a @ '']('' @ s2"
    and m2: "lazy_dot_star (lit '')'' Some) s2 = Some []" by blast
  from lazy_dot_star_lit [OF m2] obtain b b' where "s2 = b @ '')'' @ b'" "Some b' = Some []"
    by blast
  then have "s2 = b @ '')''" by simp
  with s1 s2 have "tok = ''['' @ a @ '']('' @ b @ '')''" by simp
  then show ?thesis by blast
qed

section \<open>Parsing a line into spans\<close>

lemma split_link_not_Nil: "split_link acc s \<noteq> []"
  by (induction acc s rule: split_link.induct) (simp_all split: option.splits)

lemma parseRichText_not_Nil: "parseRichText s \<noteq> []"
  by (simp add: parseRichText_def split_link_not_Nil)

lemma concat_split_link: "concat (split_link acc s) = acc @ s"
proof (induction acc s rule: split_link.induct)
  case (1 acc)
  show ?case by simp
next
  case (2 acc c cs)
  show ?case
  proof (cases "link_re (c # cs)")
    case None
    with 2(1) show ?thesis by simp
  next
    case (Some rest)
    from link_re_exact [OF Some]
    have "take (length (c # cs) - length rest) (c # cs) @ rest = c # cs" by simp
    with Some 2(2) show ?thesis by simp
  qed
qed

lemma split_link_odd:
  "i < length (split_link acc s) \<Longrightarrow> odd i \<Longrightarrow> link_re (split_link acc s ! i) = Some []"
proof (induction acc s arbitrary: i rule: split_link.induct)
  case (1 acc)
  then show ?case by simp
next
  case (2 acc c cs)
  show ?case
  proof (cases "link_re (c # cs)")
    case None
    with 2(1) [OF None] 2(3,4) show ?thesis by simp
  next
    case (Some rest)
    from 2(4) obtain j where i: "i = Suc j" and j: "even j" by (cases i) auto
    show ?thesis
    proof (cases j)
      case 0
      with i Some link_re_exact [OF Some] show ?thesis by simp
    next
      case (Suc k)
      with j have "odd k" by simp
      moreover from 2(3) i Suc Some have "k < length (split_link [] rest)" by simp
      ultimately have "link_re (split_link [] rest ! k) = Some []"
        using 2(2) [OF Some] by blast
      with i Suc Some show ?thesis by simp
    qed
  qed
qed

lemma part_to_span_link:
  "looks_like_link tok \<Longrightarrow> part_to_span tok = link_of_token tok"
proof -
  assume l: "looks_like_link tok"
  have ne: "split_str '']('' [] (slice_1_m1 tok) \<noteq> []" by (rule split_str_not_Nil)
  show ?thesis
  proof (cases "split_str '']('' [] (slice_1_m1 tok)")
    case Nil
    with ne show ?thesis by simp
  next
    case (Cons t ps)
    with l show ?thesis
      by (cases ps) (simp_all add: part_to_span_def link_of_token_def looks_like_link_def)
  qed
qed

lemma part_to_span_plain:
  "\<not> looks_like_link tok \<Longrightarrow> part_to_span tok = PlainText tok"
  by (auto simp: part_to_span_def looks_like_link_def)

lemma link_re_looks_like_link:
  assumes "link_re tok = Some []"
  shows "looks_like_link tok \<and> (\<exists>t u. part_to_span tok = Link t (Some u))"
proof -
  from link_re_shape [OF assms] obtain a b where tok: "tok = ''['' @ a @ '']('' @ b @ '')''"
    by blast
  have inc2: "includes_str ((''['' @ a) @ '']('' @ (b @ '')'')) ''](''"
    by (rule includes_str_append)
  then have inc3: "includes_str tok ''](''" using tok by simp
  have l: "looks_like_link tok"
    using inc3 tok by (simp add: looks_like_link_def startsWith_def)
  have sl: "slice_1_m1 tok = a @ '']('' @ b"
    using tok by (simp add: slice_1_m1_def)
  have "includes_str (a @ '']('' @ b) ''](''" by (rule includes_str_append)
  then have "2 \<le> length (split_str '']('' [] (slice_1_m1 tok))"
    unfolding sl by (intro includes_str_split_str) simp_all
  then have "1 < length (split_str '']('' [] (slice_1_m1 tok))" by simp
  with part_to_span_link [OF l] show ?thesis
    using l by (simp add: link_of_token_def Let_def)
qed

text \<open>
  What the code does with each token. \<^verbatim>\<open>parseRichText\<close> gives one span for each token
  of the split of the line at the matches of the link pattern, and the tokens put together
  are the line. The tokens at odd positions are the matches, each matched exactly, and
  each becomes a link span with a url. The test of the code is wider than that: every
  token that starts with \<^verbatim>\<open>[\<close> and includes \<^verbatim>\<open>](\<close> is decoded as a link. A token that
  fails the test becomes a plain span with the token as its content.
\<close>

lemma parseRichText_per_token:
  "length (parseRichText s) = length (split_link [] s) \<and>
   concat (split_link [] s) = s \<and>
   (\<forall>i < length (split_link [] s).
      (odd i \<longrightarrow> link_re (split_link [] s ! i) = Some []) \<and>
      (link_re (split_link [] s ! i) = Some [] \<longrightarrow>
         looks_like_link (split_link [] s ! i) \<and> (\<exists>t u. parseRichText s ! i = Link t (Some u))) \<and>
      (looks_like_link (split_link [] s ! i) \<longrightarrow>
         parseRichText s ! i = link_of_token (split_link [] s ! i)) \<and>
      (\<not> looks_like_link (split_link [] s ! i) \<longrightarrow>
         parseRichText s ! i = PlainText (split_link [] s ! i)))"
proof (intro conjI allI impI)
  show "length (parseRichText s) = length (split_link [] s)"
    by (simp add: parseRichText_def)
  show "concat (split_link [] s) = s"
    by (simp add: concat_split_link)
next
  fix i
  assume "i < length (split_link [] s)" "odd i"
  then show "link_re (split_link [] s ! i) = Some []" by (rule split_link_odd)
next
  fix i
  assume "i < length (split_link [] s)" "link_re (split_link [] s ! i) = Some []"
  then show "looks_like_link (split_link [] s ! i)"
    by (simp add: link_re_looks_like_link)
next
  fix i
  assume "i < length (split_link [] s)" "link_re (split_link [] s ! i) = Some []"
  then show "\<exists>t u. parseRichText s ! i = Link t (Some u)"
    by (simp add: parseRichText_def link_re_looks_like_link)
next
  fix i
  assume "i < length (split_link [] s)" "looks_like_link (split_link [] s ! i)"
  then show "parseRichText s ! i = link_of_token (split_link [] s ! i)"
    by (simp add: parseRichText_def part_to_span_link)
next
  fix i
  assume "i < length (split_link [] s)" "\<not> looks_like_link (split_link [] s ! i)"
  then show "parseRichText s ! i = PlainText (split_link [] s ! i)"
    by (simp add: parseRichText_def part_to_span_plain)
qed

text \<open>The code and the specification decode a token alike, unless the token passes the
  test of the code without being a match of the pattern.\<close>

lemma part_to_span_spec_span:
  assumes "link_re tok = Some [] \<or> \<not> looks_like_link tok"
  shows "part_to_span tok = spec_span tok"
proof (cases "link_re tok = Some []")
  case True
  then have "looks_like_link tok" by (simp add: link_re_looks_like_link)
  with True show ?thesis by (simp add: part_to_span_link spec_span_def)
next
  case False
  with assms have "\<not> looks_like_link tok" by simp
  with False show ?thesis by (simp add: part_to_span_plain spec_span_def)
qed

text \<open>
  Claim C4. Every token of the split that exactly wraps the bracket-paren link form is to
  become a link span, and every other token, malformed link syntax included, a plain span
  with its literal content. The code breaks this on the line \<^verbatim>\<open>[a](b\<close>, a link that is
  not closed. The line is a single token and no match of the pattern, so it is to be the
  plain span \<^verbatim>\<open>[a](b\<close>. The token passes the test of the code, which slices off its last
  character \<^verbatim>\<open>b\<close> as if it were the closing parenthesis, and becomes a link span with the
  text \<^verbatim>\<open>a\<close> and an empty url.
\<close>

theorem malformed_link_becomes_Link:
  "split_link [] ''[a](b'' = [''[a](b''] \<and> link_re ''[a](b'' = None \<and>
   map spec_span (split_link [] ''[a](b'') = [PlainText ''[a](b''] \<and>
   parseRichText ''[a](b'' = [Link ''a'' (Some [])] \<and>
   parseRichText ''[a](b'' \<noteq> map spec_span (split_link [] ''[a](b'')"
  by code_simp

lemma surface_link_token:
  assumes l: "looks_like_link tok" and e: "last tok = CHR '')''"
    and p: "length (split_str '']('' [] (slice_1_m1 tok)) = 2"
  shows "surface (part_to_span tok) = tok"
proof -
  from l obtain rest where tok: "tok = CHR ''['' # rest"
    by (auto simp: looks_like_link_def startsWith_def prefix_def)
  from l tok have "rest \<noteq> []" by (auto simp: looks_like_link_def)
  then have rest: "rest = butlast rest @ [last rest]" by simp
  from tok \<open>rest \<noteq> []\<close> e have lr: "last rest = CHR '')''" by simp
  have sl: "slice_1_m1 tok = butlast rest"
    using tok by (simp add: slice_1_m1_def butlast_conv_take)
  from p obtain t u where tu: "split_str '']('' [] (slice_1_m1 tok) = [t, u]"
    by (auto simp: length_Suc_conv numeral_2_eq_2)
  have "join '']('' (split_str '']('' [] (slice_1_m1 tok)) = [] @ slice_1_m1 tok"
    by (rule join_split_str)
  with tu sl have b: "butlast rest = t @ '']('' @ u" by simp
  have "part_to_span tok = Link t (Some u)"
    using part_to_span_link [OF l] tu by (simp add: link_of_token_def)
  then have "surface (part_to_span tok) = ''['' @ (t @ '']('' @ u) @ '')''" by simp
  also have "\<dots> = CHR ''['' # butlast rest @ [last rest]" using b lr by simp
  also have "\<dots> = tok" using tok rest by simp
  finally show ?thesis .
qed

lemma reassemble_tokens:
  assumes "\<forall>tok \<in> set toks. looks_like_link tok \<longrightarrow>
      last tok = CHR '')'' \<and> length (split_str '']('' [] (slice_1_m1 tok)) = 2"
  shows "reassemble (map part_to_span toks) = concat toks"
  using assms
proof (induction toks)
  case Nil
  show ?case by (simp add: reassemble_def)
next
  case (Cons tok toks)
  have "surface (part_to_span tok) = tok"
  proof (cases "looks_like_link tok")
    case True
    with Cons.prems show ?thesis by (simp add: surface_link_token)
  next
    case False
    then show ?thesis by (simp add: part_to_span_plain)
  qed
  moreover from Cons have "reassemble (map part_to_span toks) = concat toks" by simp
  ultimately show ?case by (simp add: reassemble_def)
qed

text \<open>Where the round trip holds: on every line in which each token that the code decodes
  as a link ends with \<^verbatim>\<open>)\<close> and holds \<^verbatim>\<open>](\<close> exactly once.\<close>

lemma reassemble_parseRichText:
  assumes "\<forall>tok \<in> set (split_link [] s). looks_like_link tok \<longrightarrow>
        last tok = CHR '')'' \<and> length (split_str '']('' [] (slice_1_m1 tok)) = 2"
  shows "reassemble (parseRichText s) = s"
proof -
  from assms have "reassemble (map part_to_span (split_link [] s)) = concat (split_link [] s)"
    by (rule reassemble_tokens)
  then show ?thesis by (simp add: parseRichText_def concat_split_link)
qed

text \<open>
  Claim C5. The line \<^verbatim>\<open>see [docs](http://x)  more\<close> parses into the plain span
  \<^verbatim>\<open>see \<close>, the link \<^verbatim>\<open>docs\<close> to \<^verbatim>\<open>http://x\<close> and the plain span of two blanks and
  \<^verbatim>\<open>more\<close>, and putting the spans of any line together, with the bracket decoration back
  around each link, is to give the line. The example holds, and so does the round trip on
  it. The code breaks the round trip on the line \<^verbatim>\<open>[a](b\<close>: the link that is not closed
  becomes a link span with an empty url, and the line comes back as \<^verbatim>\<open>[a]()\<close>. It breaks
  it also on \<^verbatim>\<open>[a](b](c)\<close>, where only the first two pieces of the split at \<^verbatim>\<open>](\<close> are
  kept: the line comes back as \<^verbatim>\<open>[a](b)\<close>.
\<close>

theorem round_trip_fails:
  "parseRichText ''see [docs](http://x)  more'' =
     [PlainText ''see '', Link ''docs'' (Some ''http://x''), PlainText ''  more''] \<and>
   reassemble (parseRichText ''see [docs](http://x)  more'') = ''see [docs](http://x)  more'' \<and>
   parseRichText ''[a](b'' = [Link ''a'' (Some [])] \<and>
   reassemble (parseRichText ''[a](b'') = ''[a]()'' \<and>
   reassemble (parseRichText ''[a](b'') \<noteq> ''[a](b'' \<and>
   parseRichText ''[a](b](c)'' = [PlainText [], Link ''a'' (Some ''b''), PlainText []] \<and>
   reassemble (parseRichText ''[a](b](c)'') = ''[a](b)'' \<and>
   reassemble (parseRichText ''[a](b](c)'') \<noteq> ''[a](b](c)''"
  by code_simp

section \<open>The conversion loop\<close>

lemma push_simps:
  "blocks (push b st) = blocks st @ [b]"
  "currentParagraph (push b st) = currentParagraph st"
  "skipIntroduction (push b st) = skipIntroduction st"
  by (simp_all add: push_def)

lemma flush_simps:
  "blocks (flush st) =
     blocks st @ (if currentParagraph st \<noteq> [] then [createParagraphBlock (currentParagraph st)] else [])"
  "currentParagraph (flush st) = []"
  "skipIntroduction (flush st) = skipIntroduction st"
  by (simp_all add: flush_def push_def)

lemma finish_flush: "finish st = List.map_filter (\<lambda>b. b) (blocks (flush st))"
  by (simp add: finish_def flush_simps)

lemma map_filter_append: "List.map_filter f (xs @ ys) = List.map_filter f xs @ List.map_filter f ys"
  by (simp add: List.map_filter_def)

lemma createParagraphBlock_cases:
  "createParagraphBlock t =
     (if t \<noteq> [] \<and> \<not> includes_str t ''AI Summarized'' then Some (Paragraph (parseRichText t))
      else None)"
  by (simp add: createParagraphBlock_def)

lemma flush_emits:
  "List.map_filter (\<lambda>b. b) (blocks (flush st)) =
     List.map_filter (\<lambda>b. b) (blocks st) @ emitted_paragraph (currentParagraph st)"
  by (simp add: flush_simps map_filter_append emitted_paragraph_def createParagraphBlock_cases List.map_filter_def)

lemma set_map_filter_id: "b \<in> set (List.map_filter (\<lambda>b. b) bs) \<longleftrightarrow> Some b \<in> set bs"
  by (force simp: List.map_filter_def)

text \<open>The branches of \<^const>\<open>step\<close>, one by one.\<close>

lemma step_skip:
  "skipIntroduction st \<Longrightarrow>
   step st line = (if trim line = ''---'' then st\<lparr>skipIntroduction := False\<rparr> else st)"
  by (simp add: step_def)

lemma step_h1:
  "\<not> skipIntroduction st \<Longrightarrow> startsWith line ''# '' \<Longrightarrow>
   step st line = push (Some (createHeadingBlock (substring line 2) heading_1)) (flush st)"
  by (simp add: step_def)

lemma step_h2:
  "\<not> skipIntroduction st \<Longrightarrow> \<not> startsWith line ''# '' \<Longrightarrow> startsWith line ''## '' \<Longrightarrow>
   step st line = push (Some (createHeadingBlock (substring line 3) heading_2)) (flush st)"
  by (simp add: step_def)

lemma step_h3:
  "\<not> skipIntroduction st \<Longrightarrow> \<not> startsWith line ''# '' \<Longrightarrow> \<not> startsWith line ''## '' \<Longrightarrow>
   startsWith line ''### '' \<Longrightarrow>
   step st line = push (Some (createHeadingBlock (substring line 4) heading_3)) (flush st)"
  by (simp add: step_def)

lemma step_bullet:
  "\<not> skipIntroduction st \<Longrightarrow> \<not> startsWith line ''# '' \<Longrightarrow> \<not> startsWith line ''## '' \<Longrightarrow>
   \<not> startsWith line ''### '' \<Longrightarrow> startsWith line ''- '' \<Longrightarrow>
   step st line = push (Some (createBulletedListItemBlock (substring line 2))) (flush st)"
  by (simp add: step_def)

lemma step_blank:
  "\<not> skipIntroduction st \<Longrightarrow> \<not> startsWith line ''# '' \<Longrightarrow> \<not> startsWith line ''## '' \<Longrightarrow>
   \<not> startsWith line ''### '' \<Longrightarrow> \<not> startsWith line ''- '' \<Longrightarrow> trim line = [] \<Longrightarrow>
   step st line = flush st"
  by (simp add: step_def)

lemma step_text:
  "\<not> skipIntroduction st \<Longrightarrow> \<not> startsWith line ''# '' \<Longrightarrow> \<not> startsWith line ''## '' \<Longrightarrow>
   \<not> startsWith line ''### '' \<Longrightarrow> \<not> startsWith line ''- '' \<Longrightarrow> trim line \<noteq> [] \<Longrightarrow>
   step st line = st\<lparr>currentParagraph := currentParagraph st @ line\<rparr>"
  by (simp add: step_def)

lemma step_blocks_cases:
  "blocks (step st line) = blocks st \<or> blocks (step st line) = blocks (flush st) \<or>
    (\<exists>c t. blocks (step st line) = blocks (flush st) @ [Some (createHeadingBlock c t)]) \<or>
    (\<exists>c. blocks (step st line) = blocks (flush st) @ [Some (createBulletedListItemBlock c)])"
proof -
  consider (skip) "skipIntroduction st"
    | (h1) "\<not> skipIntroduction st" "startsWith line ''# ''"
    | (h2) "\<not> skipIntroduction st" "\<not> startsWith line ''# ''" "startsWith line ''## ''"
    | (h3) "\<not> skipIntroduction st" "\<not> startsWith line ''# ''" "\<not> startsWith line ''## ''"
        "startsWith line ''### ''"
    | (bullet) "\<not> skipIntroduction st" "\<not> startsWith line ''# ''" "\<not> startsWith line ''## ''"
        "\<not> startsWith line ''### ''" "startsWith line ''- ''"
    | (blank) "\<not> skipIntroduction st" "\<not> startsWith line ''# ''" "\<not> startsWith line ''## ''"
        "\<not> startsWith line ''### ''" "\<not> startsWith line ''- ''" "trim line = []"
    | (para) "\<not> skipIntroduction st" "\<not> startsWith line ''# ''" "\<not> startsWith line ''## ''"
        "\<not> startsWith line ''### ''" "\<not> startsWith line ''- ''" "trim line \<noteq> []"
    by blast
  then show ?thesis
  proof cases
    case skip
    then show ?thesis by (simp add: step_skip)
  next
    case h1
    then have "blocks (step st line) =
        blocks (flush st) @ [Some (createHeadingBlock (substring line 2) heading_1)]"
      by (simp add: step_h1 push_simps)
    then show ?thesis by blast
  next
    case h2
    then have "blocks (step st line) =
        blocks (flush st) @ [Some (createHeadingBlock (substring line 3) heading_2)]"
      by (simp add: step_h2 push_simps)
    then show ?thesis by blast
  next
    case h3
    then have "blocks (step st line) =
        blocks (flush st) @ [Some (createHeadingBlock (substring line 4) heading_3)]"
      by (simp add: step_h3 push_simps)
    then show ?thesis by blast
  next
    case bullet
    then have "blocks (step st line) =
        blocks (flush st) @ [Some (createBulletedListItemBlock (substring line 2))]"
      by (simp add: step_bullet push_simps)
    then show ?thesis by blast
  next
    case blank
    then show ?thesis by (simp add: step_blank)
  next
    case para
    then show ?thesis by (simp add: step_text)
  qed
qed

lemma prefix_facts:
  "startsWith line ''## '' \<Longrightarrow> \<not> startsWith line ''# ''"
  "startsWith line ''### '' \<Longrightarrow> \<not> startsWith line ''# '' \<and> \<not> startsWith line ''## ''"
  "startsWith line ''- '' \<Longrightarrow>
     \<not> startsWith line ''# '' \<and> \<not> startsWith line ''## '' \<and> \<not> startsWith line ''### ''"
  by (auto simp: startsWith_def prefix_def)

lemma hash_line:
  assumes "startsWith line ''#''"
  shows "trim line \<noteq> []" "\<not> startsWith line ''- ''"
proof -
  from assms obtain r where l: "line = CHR ''#'' # r"
    by (auto simp: startsWith_def prefix_def)
  have nw: "\<not> is_white_space CHR ''#''" by (simp add: is_white_space_def)
  then have "dropWhile is_white_space line = line" using l by simp
  moreover have "CHR ''#'' \<in> set (rev line)" using l by simp
  then have "dropWhile is_white_space (rev line) \<noteq> []"
    using nw by (auto simp: dropWhile_eq_Nil_conv)
  ultimately show "trim line \<noteq> []" by (simp add: trim_def)
  show "\<not> startsWith line ''- ''" using l by (simp add: startsWith_def)
qed

text \<open>Every paragraph that is ever pushed is in order.\<close>

lemma paragraph_ok_create: "paragraph_ok (createParagraphBlock t)"
  by (auto simp: paragraph_ok_def createParagraphBlock_cases)

lemma paragraph_ok_flush:
  "\<forall>b \<in> set (blocks st). paragraph_ok b \<Longrightarrow> \<forall>b \<in> set (blocks (flush st)). paragraph_ok b"
  by (auto simp: flush_simps paragraph_ok_create)

lemma paragraph_ok_step:
  assumes "\<forall>b \<in> set (blocks st). paragraph_ok b"
  shows "\<forall>b \<in> set (blocks (step st line)). paragraph_ok b"
proof -
  have f: "\<forall>b \<in> set (blocks (flush st)). paragraph_ok b"
    using assms by (rule paragraph_ok_flush)
  have h: "paragraph_ok (Some (createHeadingBlock c t))" for c t
    by (simp add: paragraph_ok_def createHeadingBlock_def)
  have l: "paragraph_ok (Some (createBulletedListItemBlock c))" for c
    by (simp add: paragraph_ok_def createBulletedListItemBlock_def)
  from step_blocks_cases [of st line] show ?thesis using assms f h l
    by (elim disjE exE) simp_all
qed

lemma paragraph_ok_foldl:
  "\<forall>b \<in> set (blocks st). paragraph_ok b \<Longrightarrow>
   \<forall>b \<in> set (blocks (foldl step st ls)). paragraph_ok b"
proof (induction ls arbitrary: st)
  case Nil
  then show ?case by simp
next
  case (Cons l ls)
  from Cons.prems have "\<forall>b \<in> set (blocks (step st l)). paragraph_ok b"
    by (rule paragraph_ok_step)
  then have "\<forall>b \<in> set (blocks (foldl step (step st l) ls)). paragraph_ok b"
    by (rule Cons.IH)
  then show ?case by simp
qed

lemma convert_paragraphs:
  assumes "Paragraph spans \<in> set (convertContentToBlocks txt)"
  shows "\<exists>t. t \<noteq> [] \<and> \<not> includes_str t ''AI Summarized'' \<and> spans = parseRichText t"
proof -
  let ?st = "foldl step initial_state (split_str ''\<newline>'' [] txt)"
  have "\<forall>b \<in> set (blocks initial_state). paragraph_ok b" by (simp add: initial_state_def)
  then have "\<forall>b \<in> set (blocks ?st). paragraph_ok b" by (rule paragraph_ok_foldl)
  then have "\<forall>b \<in> set (blocks (flush ?st)). paragraph_ok b" by (rule paragraph_ok_flush)
  moreover from assms have "Some (Paragraph spans) \<in> set (blocks (flush ?st))"
    by (simp add: convertContentToBlocks_def finish_flush set_map_filter_id)
  ultimately have "paragraph_ok (Some (Paragraph spans))" by blast
  then show ?thesis by (simp add: paragraph_ok_def)
qed

text \<open>
  Claim C1, amended. In the collecting state, a line that starts with \<^verbatim>\<open># \<close> (and with
  \<^verbatim>\<open>## \<close>, \<^verbatim>\<open>### \<close> for the levels 2 and 3) first flushes the pending paragraph and then
  pushes a heading of that level. The text of the heading is a single plain span: the
  rest of the line after the prefix, with every match of the placeholder pattern removed
  and the result trimmed. Links in a heading are not parsed. The placeholder is removed
  from heading lines only: a bullet is the parse of the rest of its line as it is, and a
  flushed paragraph is the parse of the accumulated text as it is.
\<close>

theorem heading_lines:
  assumes "\<not> skipIntroduction st"
  shows "(startsWith line ''# '' \<longrightarrow>
      step st line =
        push (Some (Heading heading_1 [PlainText (trim (strip_placeholder (drop 2 line)))]))
          (flush st)) \<and>
    (startsWith line ''## '' \<longrightarrow>
      step st line =
        push (Some (Heading heading_2 [PlainText (trim (strip_placeholder (drop 3 line)))]))
          (flush st)) \<and>
    (startsWith line ''### '' \<longrightarrow>
      step st line =
        push (Some (Heading heading_3 [PlainText (trim (strip_placeholder (drop 4 line)))]))
          (flush st)) \<and>
    (startsWith line ''- '' \<longrightarrow>
      step st line = push (Some (BulletedListItem (parseRichText (drop 2 line)))) (flush st)) \<and>
    List.map_filter (\<lambda>b. b) (blocks (flush st)) =
      List.map_filter (\<lambda>b. b) (blocks st) @ emitted_paragraph (currentParagraph st)"
proof (intro conjI impI)
  assume "startsWith line ''# ''"
  with assms show "step st line =
        push (Some (Heading heading_1 [PlainText (trim (strip_placeholder (drop 2 line)))]))
          (flush st)"
    by (simp add: step_h1 createHeadingBlock_def substring_def)
next
  assume h: "startsWith line ''## ''"
  with assms prefix_facts(1) [OF h] show "step st line =
        push (Some (Heading heading_2 [PlainText (trim (strip_placeholder (drop 3 line)))]))
          (flush st)"
    by (simp add: step_h2 createHeadingBlock_def substring_def)
next
  assume h: "startsWith line ''### ''"
  with assms prefix_facts(2) [OF h] show "step st line =
        push (Some (Heading heading_3 [PlainText (trim (strip_placeholder (drop 4 line)))]))
          (flush st)"
    by (simp add: step_h3 createHeadingBlock_def substring_def)
next
  assume h: "startsWith line ''- ''"
  with assms prefix_facts(3) [OF h] show
    "step st line = push (Some (BulletedListItem (parseRichText (drop 2 line)))) (flush st)"
    by (simp add: step_bullet createBulletedListItemBlock_def substring_def)
next
  show "List.map_filter (\<lambda>b. b) (blocks (flush st)) =
      List.map_filter (\<lambda>b. b) (blocks st) @ emitted_paragraph (currentParagraph st)"
    by (rule flush_emits)
qed

theorem heading_lines_witness:
  "step \<lparr>blocks = [], currentParagraph = ''pending'', skipIntroduction = False\<rparr>
     ''## Title @([s](u)) '' =
   \<lparr>blocks = [Some (Paragraph [PlainText ''pending'']),
               Some (Heading heading_2 [PlainText ''Title''])],
    currentParagraph = [], skipIntroduction = False\<rparr> \<and>
   step \<lparr>blocks = [], currentParagraph = [], skipIntroduction = False\<rparr> ''- x@([a](b))'' =
   \<lparr>blocks = [Some (BulletedListItem
                 [PlainText ''x@('', Link ''a'' (Some ''b''), PlainText '')''])],
    currentParagraph = [], skipIntroduction = False\<rparr>"
proof -
  let ?st = "\<lparr>blocks = [], currentParagraph = ''pending'', skipIntroduction = False\<rparr>"
  let ?line = "''## Title @([s](u)) ''"
  let ?st' = "\<lparr>blocks = [], currentParagraph = [], skipIntroduction = False\<rparr>"
  let ?line' = "''- x@([a](b))''"
  have h: "\<not> skipIntroduction ?st" by simp
  have p: "startsWith ?line ''## ''" by (simp add: startsWith_def)
  have t: "trim (strip_placeholder (drop 3 ?line)) = ''Title''" by code_simp
  have f: "flush ?st =
      \<lparr>blocks = [Some (Paragraph [PlainText ''pending''])], currentParagraph = [],
       skipIntroduction = False\<rparr>"
    by code_simp
  from heading_lines [OF h, of ?line] p
  have "step ?st ?line =
      push (Some (Heading heading_2 [PlainText (trim (strip_placeholder (drop 3 ?line)))]))
        (flush ?st)"
    by blast
  then have one: "step ?st ?line =
      \<lparr>blocks = [Some (Paragraph [PlainText ''pending'']),
                  Some (Heading heading_2 [PlainText ''Title''])],
       currentParagraph = [], skipIntroduction = False\<rparr>"
    unfolding t f by (simp add: push_def)
  have h': "\<not> skipIntroduction ?st'" by simp
  have p': "startsWith ?line' ''- ''" by (simp add: startsWith_def)
  have t': "parseRichText (drop 2 ?line') =
      [PlainText ''x@('', Link ''a'' (Some ''b''), PlainText '')'']"
    by code_simp
  have f': "flush ?st' = ?st'" by (simp add: flush_def)
  from heading_lines [OF h', of ?line'] p'
  have "step ?st' ?line' =
      push (Some (BulletedListItem (parseRichText (drop 2 ?line')))) (flush ?st')"
    by blast
  then have two: "step ?st' ?line' =
      \<lparr>blocks = [Some (BulletedListItem
                    [PlainText ''x@('', Link ''a'' (Some ''b''), PlainText '')''])],
       currentParagraph = [], skipIntroduction = False\<rparr>"
    unfolding t' f' by (simp add: push_def)
  from one two show ?thesis by (intro conjI)
qed

text \<open>The claim as first stated fails on a heading that holds a link: its text is one plain
  span, where the parse has three spans.\<close>

theorem heading_text_is_not_parsed:
  "convertContentToBlocks ''---\<newline># [a](b)'' = [Heading heading_1 [PlainText ''[a](b)'']] \<and>
   parseRichText (trim (strip_placeholder ''[a](b)'')) =
     [PlainText [], Link ''a'' (Some ''b''), PlainText []] \<and>
   convertContentToBlocks ''---\<newline># [a](b)'' \<noteq>
     [Heading heading_1 (parseRichText (trim (strip_placeholder ''[a](b)'')))]"
  by code_simp

text \<open>
  Claim C2. A flush of the pending paragraph adds a paragraph block to the output exactly
  when the accumulated text is not empty and does not include \<^verbatim>\<open>AI Summarized\<close>; the block
  is the parse of the whole text, and the accumulator is empty afterwards. The same holds
  for the flush after the last line. So every paragraph of the output is the parse of a
  text that is not empty and does not include the marker, and has at least one span; and
  \<^verbatim>\<open>---\<close>, \<^verbatim>\<open>- a\<close>, \<^verbatim>\<open>- b\<close> and an empty last line give the two bullets and nothing more.
\<close>

theorem paragraph_flush:
  "List.map_filter (\<lambda>b. b) (blocks (flush st)) =
     List.map_filter (\<lambda>b. b) (blocks st) @
       (if currentParagraph st \<noteq> [] \<and> \<not> includes_str (currentParagraph st) ''AI Summarized''
        then [Paragraph (parseRichText (currentParagraph st))] else []) \<and>
   currentParagraph (flush st) = [] \<and>
   finish st =
     List.map_filter (\<lambda>b. b) (blocks st) @
       (if currentParagraph st \<noteq> [] \<and> \<not> includes_str (currentParagraph st) ''AI Summarized''
        then [Paragraph (parseRichText (currentParagraph st))] else []) \<and>
   (\<forall>spans. Paragraph spans \<in> set (convertContentToBlocks txt) \<longrightarrow>
      spans \<noteq> [] \<and>
      (\<exists>t. t \<noteq> [] \<and> \<not> includes_str t ''AI Summarized'' \<and> spans = parseRichText t)) \<and>
   convertContentToBlocks ''---\<newline>- a\<newline>- b\<newline>'' =
     [BulletedListItem [PlainText ''a''], BulletedListItem [PlainText ''b'']]"
proof (intro conjI allI impI)
  show "List.map_filter (\<lambda>b. b) (blocks (flush st)) =
     List.map_filter (\<lambda>b. b) (blocks st) @
       (if currentParagraph st \<noteq> [] \<and> \<not> includes_str (currentParagraph st) ''AI Summarized''
        then [Paragraph (parseRichText (currentParagraph st))] else [])"
    using flush_emits [of st] by (simp add: emitted_paragraph_def)
  show "currentParagraph (flush st) = []" by (simp add: flush_simps)
  show "finish st =
     List.map_filter (\<lambda>b. b) (blocks st) @
       (if currentParagraph st \<noteq> [] \<and> \<not> includes_str (currentParagraph st) ''AI Summarized''
        then [Paragraph (parseRichText (currentParagraph st))] else [])"
    using flush_emits [of st] by (simp add: finish_flush emitted_paragraph_def)
  show "convertContentToBlocks ''---\<newline>- a\<newline>- b\<newline>'' =
     [BulletedListItem [PlainText ''a''], BulletedListItem [PlainText ''b'']]"
    by code_simp
next
  fix spans
  assume p: "Paragraph spans \<in> set (convertContentToBlocks txt)"
  from convert_paragraphs [OF p]
  show "\<exists>t. t \<noteq> [] \<and> \<not> includes_str t ''AI Summarized'' \<and> spans = parseRichText t" .
  then show "spans \<noteq> []" by (auto simp: parseRichText_not_Nil)
qed

theorem paragraph_flush_witness:
  "finish \<lparr>blocks = [Some (BulletedListItem [PlainText ''a''])],
           currentParagraph = ''x AI Summarized y'', skipIntroduction = False\<rparr> =
     [BulletedListItem [PlainText ''a'']] \<and>
   finish \<lparr>blocks = [Some (BulletedListItem [PlainText ''a''])],
           currentParagraph = ''xy'', skipIntroduction = False\<rparr> =
     [BulletedListItem [PlainText ''a''], Paragraph [PlainText ''xy'']] \<and>
   Paragraph [PlainText ''para''] \<in> set (convertContentToBlocks ''---\<newline>para'') \<and>
   (\<exists>t. t \<noteq> [] \<and> \<not> includes_str t ''AI Summarized'' \<and> [PlainText ''para''] = parseRichText t)"
proof -
  let ?b = "[Some (BulletedListItem [PlainText ''a''])]"
  let ?s1 = "\<lparr>blocks = ?b, currentParagraph = ''x AI Summarized y'', skipIntroduction = False\<rparr>"
  let ?s2 = "\<lparr>blocks = ?b, currentParagraph = ''xy'', skipIntroduction = False\<rparr>"
  have i1: "includes_str ''x AI Summarized y'' ''AI Summarized''" by code_simp
  have i2: "\<not> includes_str ''xy'' ''AI Summarized''" by code_simp
  have p2: "parseRichText ''xy'' = [PlainText ''xy'']" by code_simp
  have m: "Paragraph [PlainText ''para''] \<in> set (convertContentToBlocks ''---\<newline>para'')"
    by code_simp
  from paragraph_flush [of ?s1 "''---\<newline>para''"] i1
  have a: "finish ?s1 = [BulletedListItem [PlainText ''a'']]"
    by (simp add: List.map_filter_def)
  from paragraph_flush [of ?s2 "''---\<newline>para''"] i2 p2
  have b: "finish ?s2 = [BulletedListItem [PlainText ''a''], Paragraph [PlainText ''xy'']]"
    by (simp add: List.map_filter_def)
  from paragraph_flush [of ?s2 "''---\<newline>para''"] m
  have c: "\<exists>t. t \<noteq> [] \<and> \<not> includes_str t ''AI Summarized'' \<and> [PlainText ''para''] = parseRichText t"
    by blast
  from a b m c show ?thesis by blast
qed

lemma foldl_step_skip:
  "skipIntroduction st \<Longrightarrow> \<forall>l \<in> set pre. trim l \<noteq> ''---'' \<Longrightarrow> foldl step st pre = st"
  by (induction pre arbitrary: st) (simp_all add: step_skip)

lemma finish_initial: "finish initial_state = []"
  by (simp add: finish_def initial_state_def List.map_filter_def)

text \<open>
  Claim C3. When no line of the content, trimmed, is \<^verbatim>\<open>---\<close>, the conversion gives no
  block. When there is such a line, the output is that of the collecting loop on the lines
  after the first one: that line and the lines before it contribute nothing.
\<close>

theorem preamble_discarded:
  "((\<forall>l \<in> set (split_str ''\<newline>'' [] txt). trim l \<noteq> ''---'') \<longrightarrow>
      convertContentToBlocks txt = []) \<and>
   (split_str ''\<newline>'' [] txt = pre @ sep # rest \<and>
    (\<forall>l \<in> set pre. trim l \<noteq> ''---'') \<and> trim sep = ''---'' \<longrightarrow>
      convertContentToBlocks txt =
        finish (foldl step (initial_state\<lparr>skipIntroduction := False\<rparr>) rest))"
proof (intro conjI impI)
  assume "\<forall>l \<in> set (split_str ''\<newline>'' [] txt). trim l \<noteq> ''---''"
  then have "foldl step initial_state (split_str ''\<newline>'' [] txt) = initial_state"
    by (intro foldl_step_skip) (simp_all add: initial_state_def)
  then show "convertContentToBlocks txt = []"
    by (simp add: convertContentToBlocks_def finish_initial)
next
  assume a: "split_str ''\<newline>'' [] txt = pre @ sep # rest \<and>
    (\<forall>l \<in> set pre. trim l \<noteq> ''---'') \<and> trim sep = ''---''"
  then have "foldl step initial_state pre = initial_state"
    by (intro foldl_step_skip) (simp_all add: initial_state_def)
  moreover have "step initial_state sep = initial_state\<lparr>skipIntroduction := False\<rparr>"
    using a by (simp add: step_skip initial_state_def)
  ultimately show "convertContentToBlocks txt =
        finish (foldl step (initial_state\<lparr>skipIntroduction := False\<rparr>) rest)"
    using a by (simp add: convertContentToBlocks_def)
qed

theorem preamble_discarded_witness:
  "convertContentToBlocks ''intro\<newline># x'' = [] \<and>
   convertContentToBlocks ''intro\<newline> --- \<newline>- a'' = [BulletedListItem [PlainText ''a'']]"
proof -
  have s1: "split_str ''\<newline>'' [] ''intro\<newline># x'' = [''intro'', ''# x'']" by code_simp
  have h1: "\<forall>l \<in> set (split_str ''\<newline>'' [] ''intro\<newline># x''). trim l \<noteq> ''---''"
    unfolding s1 by (simp add: trim_def is_white_space_def)
  have s2: "split_str ''\<newline>'' [] ''intro\<newline> --- \<newline>- a'' = [''intro''] @ '' --- '' # [''- a'']"
    by code_simp
  have h2: "\<forall>l \<in> set [''intro'']. trim l \<noteq> ''---''"
    by (simp add: trim_def is_white_space_def)
  have h3: "trim '' --- '' = ''---''" by code_simp
  have f: "finish (foldl step (initial_state\<lparr>skipIntroduction := False\<rparr>) [''- a'']) =
      [BulletedListItem [PlainText ''a'']]"
    by code_simp
  from preamble_discarded [of "''intro\<newline># x''"] h1
  have a: "convertContentToBlocks ''intro\<newline># x'' = []" by blast
  from preamble_discarded [of "''intro\<newline> --- \<newline>- a''" "[''intro'']" "'' --- ''" "[''- a'']"] s2 h2 h3
  have "convertContentToBlocks ''intro\<newline> --- \<newline>- a'' =
      finish (foldl step (initial_state\<lparr>skipIntroduction := False\<rparr>) [''- a''])"
    by blast
  with a f show ?thesis by simp
qed

text \<open>
  Claim C10. In the collecting state, a line that begins with \<^verbatim>\<open>#\<close> and with none of the
  prefixes \<^verbatim>\<open># \<close>, \<^verbatim>\<open>## \<close>, \<^verbatim>\<open>### \<close> (such a line is never blank) pushes no block and is
  not dropped: it is appended to the pending paragraph, and the flush that follows treats
  the text with this line in it as any paragraph text.
\<close>

theorem hash_line_is_paragraph_text:
  assumes "\<not> skipIntroduction st" "startsWith line ''#''"
    "\<not> startsWith line ''# ''" "\<not> startsWith line ''## ''" "\<not> startsWith line ''### ''"
  shows "step st line = st\<lparr>currentParagraph := currentParagraph st @ line\<rparr> \<and>
    finish (step st line) =
      List.map_filter (\<lambda>b. b) (blocks st) @ emitted_paragraph (currentParagraph st @ line)"
proof -
  have s: "step st line = st\<lparr>currentParagraph := currentParagraph st @ line\<rparr>"
    using assms hash_line [OF assms(2)] by (simp add: step_text)
  have "finish (step st line) = List.map_filter (\<lambda>b. b) (blocks (step st line)) @
      emitted_paragraph (currentParagraph (step st line))"
    by (simp add: finish_flush flush_emits)
  with s show ?thesis by simp
qed

theorem hash_line_is_paragraph_text_witness:
  "step \<lparr>blocks = [], currentParagraph = ''a'', skipIntroduction = False\<rparr> ''#Title'' =
     \<lparr>blocks = [], currentParagraph = ''a#Title'', skipIntroduction = False\<rparr> \<and>
   finish (step \<lparr>blocks = [], currentParagraph = ''a'', skipIntroduction = False\<rparr> ''#Title'') =
     [Paragraph [PlainText ''a#Title'']]"
proof -
  let ?st = "\<lparr>blocks = [], currentParagraph = ''a'', skipIntroduction = False\<rparr>"
  have h: "\<not> skipIntroduction ?st" by simp
  have p: "startsWith ''#Title'' ''#''" "\<not> startsWith ''#Title'' ''# ''"
    "\<not> startsWith ''#Title'' ''## ''" "\<not> startsWith ''#Title'' ''### ''"
    by (simp_all add: startsWith_def)
  have e: "List.map_filter (\<lambda>b. b) (blocks ?st) @
      emitted_paragraph (currentParagraph ?st @ ''#Title'') = [Paragraph [PlainText ''a#Title'']]"
    by code_simp
  from hash_line_is_paragraph_text [OF h p, THEN conjunct1]
  have s: "step ?st ''#Title'' =
      \<lparr>blocks = [], currentParagraph = ''a#Title'', skipIntroduction = False\<rparr>"
    by simp
  note f = hash_line_is_paragraph_text [OF h p, THEN conjunct2, unfolded e]
  from s f show ?thesis by (intro conjI)
qed

section \<open>The month page and the day page\<close>

lemma find_month_page_first:
  "is_month_page m p \<Longrightarrow> \<forall>q \<in> set pre. \<not> is_month_page m q \<Longrightarrow>
   find_month_page m (filter (\<lambda>b. block_type b = Some ''child_page'') (pre @ p # post)) = Some p"
  by (induction pre) (auto simp: is_month_page_def split: option.splits)

lemma find_month_page_none:
  "\<forall>q \<in> set results. \<not> is_month_page m q \<Longrightarrow>
   find_month_page m (filter (\<lambda>b. block_type b = Some ''child_page'') results) = None"
  by (induction results) (auto simp: is_month_page_def split: option.splits)

lemma handlePageContext_found:
  assumes "blocks_children_list notion parentId = Inr results"
    and "find_month_page (month_default clk)
           (filter (\<lambda>b. block_type b = Some ''child_page'') results) = Some p"
  shows "handlePageContext notion clk parentId tr =
    (Inr (ExistingPage p), tr @ [ListChildren parentId])"
  using assms by (simp add: handlePageContext_def)

lemma handlePageContext_create:
  assumes "blocks_children_list notion parentId = Inr results"
    and "find_month_page (month_default clk)
           (filter (\<lambda>b. block_type b = Some ''child_page'') results) = None"
  shows "handlePageContext notion clk parentId tr =
    (case pages_create notion (month_request clk parentId) of
       Inl e \<Rightarrow> Inl e | Inr newMonthPage \<Rightarrow> Inr (CreatedPage newMonthPage),
     tr @ [ListChildren parentId, CreatePage (month_request clk parentId)])"
  using assms by (simp add: handlePageContext_def month_request_def Let_def split: sum.splits)


lemma createDayPage_eq:
  "createDayPage notion clk monthPageId dg tr =
    (case pages_create notion (day_request clk monthPageId (content dg)) of
       Inl error \<Rightarrow>
         Inl (new_Error (''Failed to create day page in Notion: '' @ exn_to_string error))
     | Inr response \<Rightarrow> Inr response,
     tr @ [ConvertContent (content dg),
           CreatePage (day_request clk monthPageId (content dg))])"
  by (simp add: createDayPage_def day_request_def Let_def split: sum.splits)

text \<open>
  Claim C7. When the listing of the root's children succeeds: if a child of kind page whose
  title includes the current month name exists, the first such child in listing order is
  returned and the listing is the only request made; if there is none, exactly one creation
  request is made after the listing, for a page under the root whose title is the month
  name, and the page that the store answers with is returned.
\<close>

theorem handlePageContext_first_match:
  assumes "blocks_children_list notion rootId = Inr results"
  shows "(results = pre @ p # post \<and> is_month_page (month_default clk) p \<and>
      (\<forall>q \<in> set pre. \<not> is_month_page (month_default clk) q) \<longrightarrow>
        handlePageContext notion clk rootId tr =
          (Inr (ExistingPage p), tr @ [ListChildren rootId])) \<and>
    ((\<forall>q \<in> set results. \<not> is_month_page (month_default clk) q) \<longrightarrow>
        snd (handlePageContext notion clk rootId tr) =
          tr @ [ListChildren rootId,
                CreatePage \<lparr>parent_page_id = rootId, title_content = month_default clk,
                            children = None\<rparr>] \<and>
        (\<forall>newPage.
           pages_create notion \<lparr>parent_page_id = rootId, title_content = month_default clk,
                                 children = None\<rparr> = Inr newPage \<longrightarrow>
           fst (handlePageContext notion clk rootId tr) = Inr (CreatedPage newPage)))"
proof (intro conjI impI allI)
  assume a: "results = pre @ p # post \<and> is_month_page (month_default clk) p \<and>
      (\<forall>q \<in> set pre. \<not> is_month_page (month_default clk) q)"
  then have "find_month_page (month_default clk)
      (filter (\<lambda>b. block_type b = Some ''child_page'') (pre @ p # post)) = Some p"
    by (intro find_month_page_first) simp_all
  with a have "find_month_page (month_default clk)
      (filter (\<lambda>b. block_type b = Some ''child_page'') results) = Some p"
    by simp
  with assms show "handlePageContext notion clk rootId tr =
          (Inr (ExistingPage p), tr @ [ListChildren rootId])"
    by (rule handlePageContext_found)
next
  assume a: "\<forall>q \<in> set results. \<not> is_month_page (month_default clk) q"
  then have n: "find_month_page (month_default clk)
      (filter (\<lambda>b. block_type b = Some ''child_page'') results) = None"
    by (rule find_month_page_none)
  note h = handlePageContext_create [OF assms n, of tr]
  show "snd (handlePageContext notion clk rootId tr) =
          tr @ [ListChildren rootId,
                CreatePage \<lparr>parent_page_id = rootId, title_content = month_default clk,
                            children = None\<rparr>]"
    unfolding h by (simp add: month_request_def)
  fix newPage
  assume "pages_create notion \<lparr>parent_page_id = rootId, title_content = month_default clk,
                                 children = None\<rparr> = Inr newPage"
  then show "fst (handlePageContext notion clk rootId tr) = Inr (CreatedPage newPage)"
    unfolding h by (simp add: month_request_def)
qed

theorem handlePageContext_first_match_witness:
  "handlePageContext demo_client (demo_clock ''March'') ''root'' [] =
     (Inr (ExistingPage
        \<lparr>block_id = ''b2'', block_type = Some ''child_page'', child_page = Some ''March Notes''\<rparr>),
      [ListChildren ''root'']) \<and>
   handlePageContext demo_client (demo_clock ''April'') ''root'' [] =
     (Inr (CreatedPage \<lparr>page_id = ''new''\<rparr>),
      [ListChildren ''root'',
       CreatePage \<lparr>parent_page_id = ''root'', title_content = ''April'', children = None\<rparr>])"
proof -
  let ?b0 = "\<lparr>block_id = ''b0'', block_type = None, child_page = None\<rparr>"
  let ?b1 = "\<lparr>block_id = ''b1'', block_type = Some ''child_page'', child_page = Some ''February''\<rparr>"
  let ?b2 = "\<lparr>block_id = ''b2'', block_type = Some ''child_page'', child_page = Some ''March Notes''\<rparr>"
  let ?b3 = "\<lparr>block_id = ''b3'', block_type = Some ''child_page'', child_page = Some ''March''\<rparr>"
  have l: "blocks_children_list demo_client ''root'' = Inr [?b0, ?b1, ?b2, ?b3]"
    by (simp add: demo_client_def)
  have m: "month_default (demo_clock ''March'') = ''March''"
    "month_default (demo_clock ''April'') = ''April''"
    by (simp_all add: demo_clock_def)
  have s: "[?b0, ?b1, ?b2, ?b3] = [?b0, ?b1] @ ?b2 # [?b3]" by simp
  have y: "is_month_page (month_default (demo_clock ''March'')) ?b2"
    unfolding m by (simp add: is_month_page_def)
  have n: "\<forall>q \<in> set [?b0, ?b1]. \<not> is_month_page (month_default (demo_clock ''March'')) q"
    unfolding m by (simp add: is_month_page_def)
  have a: "\<forall>q \<in> set [?b0, ?b1, ?b2, ?b3]. \<not> is_month_page (month_default (demo_clock ''April'')) q"
    unfolding m by (simp add: is_month_page_def)
  have c: "pages_create demo_client
      \<lparr>parent_page_id = ''root'', title_content = month_default (demo_clock ''April''),
       children = None\<rparr> = Inr \<lparr>page_id = ''new''\<rparr>"
    by (simp add: demo_client_def)
  from s y n have f: "[?b0, ?b1, ?b2, ?b3] = [?b0, ?b1] @ ?b2 # [?b3] \<and>
      is_month_page (month_default (demo_clock ''March'')) ?b2 \<and>
      (\<forall>q \<in> set [?b0, ?b1]. \<not> is_month_page (month_default (demo_clock ''March'')) q)"
    by (intro conjI)
  from handlePageContext_first_match [OF l, where tr = "[]", THEN conjunct1, THEN mp, OF f]
  have one: "handlePageContext demo_client (demo_clock ''March'') ''root'' [] =
      (Inr (ExistingPage ?b2), [ListChildren ''root''])"
    by simp
  note g = handlePageContext_first_match [OF l, where tr = "[]", THEN conjunct2, THEN mp, OF a]
  from g [THEN conjunct1]
  have tr: "snd (handlePageContext demo_client (demo_clock ''April'') ''root'' []) =
      [ListChildren ''root'',
       CreatePage \<lparr>parent_page_id = ''root'', title_content = ''April'', children = None\<rparr>]"
    unfolding m by simp
  from g [THEN conjunct2, rule_format, OF c]
  have res: "fst (handlePageContext demo_client (demo_clock ''April'') ''root'' []) =
      Inr (CreatedPage \<lparr>page_id = ''new''\<rparr>)" .
  from tr res have two: "handlePageContext demo_client (demo_clock ''April'') ''root'' [] =
     (Inr (CreatedPage \<lparr>page_id = ''new''\<rparr>),
      [ListChildren ''root'',
       CreatePage \<lparr>parent_page_id = ''root'', title_content = ''April'', children = None\<rparr>])"
    by (simp only: prod_eq_iff fst_conv snd_conv simp_thms)
  from one two show ?thesis by (intro conjI)
qed

text \<open>
  Claim C8. A call of \<^verbatim>\<open>createDayPage\<close> starts the conversion of the digest's content
  exactly once, and then sends one creation request: its parent is the month page, its
  title the long month name, a blank and the ordinal day, and its children are the blocks
  of that conversion, in order. The page that the store answers with is returned.
\<close>

theorem createDayPage_children:
  "length (filter is_conversion
      (drop (length tr) (snd (createDayPage notion clk monthPageId dg tr)))) = 1 \<and>
   snd (createDayPage notion clk monthPageId dg tr) =
     tr @ [ConvertContent (content dg),
           CreatePage \<lparr>parent_page_id = monthPageId,
                       title_content =
                         month_en_US clk @ '' '' @ getOrdinalSuffix (day_of_month clk),
                       children = Some (convertContentToBlocks (content dg))\<rparr>] \<and>
   (\<forall>page.
      pages_create notion
        \<lparr>parent_page_id = monthPageId,
         title_content = month_en_US clk @ '' '' @ getOrdinalSuffix (day_of_month clk),
         children = Some (convertContentToBlocks (content dg))\<rparr> = Inr page \<longrightarrow>
      fst (createDayPage notion clk monthPageId dg tr) = Inr page)"
  by (simp add: createDayPage_eq day_request_def)

theorem createDayPage_children_witness:
  "createDayPage demo_client (demo_clock ''March'') ''b3'' \<lparr>content = ''---\<newline>- a''\<rparr> [] =
     (Inr \<lparr>page_id = ''new''\<rparr>,
      [ConvertContent ''---\<newline>- a'',
       CreatePage \<lparr>parent_page_id = ''b3'', title_content = ''March 3rd'',
                   children = Some [BulletedListItem [PlainText ''a'']]\<rparr>])"
proof -
  let ?dg = "\<lparr>content = ''---\<newline>- a''\<rparr>"
  have t: "month_en_US (demo_clock ''March'') @ '' '' @
      getOrdinalSuffix (day_of_month (demo_clock ''March'')) = ''March 3rd''"
    by code_simp
  have b: "convertContentToBlocks (content ?dg) = [BulletedListItem [PlainText ''a'']]"
    by code_simp
  have c: "pages_create demo_client req = Inr \<lparr>page_id = ''new''\<rparr>" for req
    by (simp add: demo_client_def)
  from createDayPage_children [of "[]" demo_client "demo_clock ''March''" "''b3''" ?dg] c
  show ?thesis unfolding t b by (simp add: prod_eq_iff)
qed








end
